theory Spec2Isabelle
  imports Main
begin

section \<open>The client pool of SwiftFS (src/client\_pool.c)\<close>

text \<open>
  The pool is single-threaded C code driven by callbacks. Every function pointer of the
  source is a HOL function over an external state \<open>'w\<close> (the clients, the callers and
  whatever else lives outside the pool): calling the pointer applies the function.
  A pool operation takes the pool and the external state and returns both updated.
  Callbacks act on the external state only; they do not call back into the pool while
  a pool operation runs.
\<close>

subsection \<open>Types\<close>

text \<open>A \<open>gpointer\<close> is an opaque address; \<open>NULL\<close> is address 0.\<close>

type_synonym gpointer = nat

definition NULL :: gpointer where
  "NULL = 0"

text \<open>
  Modelled from the spec: \<open>ConfData\<close> and \<open>conf_get_uint\<close> (conf.h is not part of the
  sources). The configuration store maps a key to an unsigned integer; the pool reads
  one key. The queue length it is compared with (a \<open>guint\<close>) is bounded by that value
  in every reachable pool, so both sides are natural numbers here.
\<close>

type_synonym ConfData = "string \<Rightarrow> nat"

definition conf_get_uint :: "ConfData \<Rightarrow> string \<Rightarrow> nat" where
  "conf_get_uint conf path = conf path"

text \<open>
  Modelled from the spec: \<open>Application\<close> with its accessors \<open>application_get_conf\<close>,
  \<open>application_get_evbase\<close> and \<open>application_get_dnsbase\<close> (global.h is not part of
  the sources). The pool only stores what the accessors return.
\<close>

record Application =
  app_conf :: ConfData
  app_evbase :: gpointer
  app_dnsbase :: gpointer

definition application_get_conf :: "Application \<Rightarrow> ConfData" where
  "application_get_conf app = app_conf app"

definition application_get_evbase :: "Application \<Rightarrow> gpointer" where
  "application_get_evbase app = app_evbase app"

definition application_get_dnsbase :: "Application \<Rightarrow> gpointer" where
  "application_get_dnsbase app = app_dnsbase app"

text \<open>
  Modelled from the spec: \<open>ClientInfo\<close> (declared in a header that is not part of the
  sources): the record a client describes itself with; the pool writes \<open>pool_name\<close>.
\<close>

record ClientInfo =
  pool_name :: string
  details :: string

text \<open>The function pointer types of client\_pool.h, as the source uses them.\<close>

type_synonym 'w ClientPool_on_client_ready = "gpointer \<Rightarrow> gpointer \<Rightarrow> 'w \<Rightarrow> 'w"
type_synonym 'w ClientPool_client_create = "Application \<Rightarrow> 'w \<Rightarrow> gpointer \<times> 'w"
type_synonym 'w ClientPool_client_destroy = "gpointer \<Rightarrow> 'w \<Rightarrow> 'w"
type_synonym 'w ClientPool_client_check_rediness = "gpointer \<Rightarrow> 'w \<Rightarrow> bool"
type_synonym 'w ClientPool_client_get_info = "gpointer \<Rightarrow> 'w \<Rightarrow> ClientInfo"

text \<open>
  \<open>PoolClient\<close>: the back pointer \<open>pc->pool\<close> of the source is not a field here; the
  pool a client belongs to is the pool passed to the operation.
\<close>

record 'w PoolClient =
  client_check_rediness :: "'w ClientPool_client_check_rediness"
  client_destroy :: "'w ClientPool_client_destroy"
  client_get_info :: "'w ClientPool_client_get_info"
  client :: gpointer

text \<open>
  \<open>client_set_on_released_cb (pc->client, client_pool_on_client_released, pc)\<close>: the
  callback registered is always \<open>client_pool_on_client_released\<close>, so the model passes
  the handle and the \<open>PoolClient\<close> only.
\<close>

type_synonym 'w ClientPool_client_set_on_released_cb =
  "gpointer \<Rightarrow> 'w PoolClient \<Rightarrow> 'w \<Rightarrow> 'w"

record 'w RequestData =
  on_client_ready :: "'w ClientPool_on_client_ready"
  ctx :: gpointer

record 'w ClientPool =
  app :: Application
  conf :: ConfData
  evbase :: gpointer
  dns_base :: gpointer
  l_clients :: "'w PoolClient list"
  q_requests :: "'w RequestData list"

subsection \<open>GLib lists and queues\<close>

definition g_list_append :: "'a list \<Rightarrow> 'a \<Rightarrow> 'a list" where
  "g_list_append l x = l @ [x]"

definition g_queue_new :: "'a list" where
  "g_queue_new = []"

definition g_queue_get_length :: "'a list \<Rightarrow> nat" where
  "g_queue_get_length q = length q"

definition g_queue_push_tail :: "'a list \<Rightarrow> 'a \<Rightarrow> 'a list" where
  "g_queue_push_tail q x = q @ [x]"

text \<open>\<open>g_queue_pop_head\<close> returns NULL on an empty queue: \<open>None\<close> here.\<close>

fun g_queue_pop_head :: "'a list \<Rightarrow> 'a option \<times> 'a list" where
  "g_queue_pop_head [] = (None, [])"
| "g_queue_pop_head (x # q) = (Some x, q)"

subsection \<open>client\_pool\_create\<close>

text \<open>
  The loop \<open>for (i = 0; i < client_count; i++)\<close> over the signed \<open>gint\<close> counter. The
  counter stays below \<open>client_count\<close>, so it does not overflow.
\<close>

function create_loop ::
  "Application \<Rightarrow> 'w ClientPool_client_create \<Rightarrow> 'w ClientPool_client_destroy \<Rightarrow>
   'w ClientPool_client_set_on_released_cb \<Rightarrow> 'w ClientPool_client_check_rediness \<Rightarrow>
   'w ClientPool_client_get_info \<Rightarrow> int \<Rightarrow> int \<Rightarrow> 'w ClientPool \<Rightarrow> 'w \<Rightarrow>
   'w ClientPool \<times> 'w" where
  "create_loop ap cl_create cl_destroy cl_set_cb cl_check cl_info i client_count pool w =
     (if i < client_count then
        (case cl_create ap w of (h, w1) \<Rightarrow>
           let pc = \<lparr>client_check_rediness = cl_check, client_destroy = cl_destroy,
                     client_get_info = cl_info, client = h\<rparr>;
               pool1 = pool\<lparr>l_clients := g_list_append (l_clients pool) pc\<rparr>;
               w2 = cl_set_cb (client pc) pc w1
           in create_loop ap cl_create cl_destroy cl_set_cb cl_check cl_info
                (i + 1) client_count pool1 w2)
      else (pool, w))"
  by pat_completeness auto
termination
  by (relation "measure (\<lambda>(ap, cr, de, se, ch, gi, i, n, pool, w). nat (n - i))") auto

declare create_loop.simps [simp del]

text \<open>The result is a pointer: \<open>None\<close> is NULL. The source has no path that returns NULL.\<close>

definition client_pool_create ::
  "Application \<Rightarrow> int \<Rightarrow> 'w ClientPool_client_create \<Rightarrow> 'w ClientPool_client_destroy \<Rightarrow>
   'w ClientPool_client_set_on_released_cb \<Rightarrow> 'w ClientPool_client_check_rediness \<Rightarrow>
   'w ClientPool_client_get_info \<Rightarrow> 'w \<Rightarrow> 'w ClientPool option \<times> 'w" where
  "client_pool_create ap client_count cl_create cl_destroy cl_set_cb cl_check cl_info w =
     (let pool = \<lparr>app = ap, conf = application_get_conf ap,
                   evbase = application_get_evbase ap,
                   dns_base = application_get_dnsbase ap,
                   l_clients = [], q_requests = g_queue_new\<rparr>
      in case create_loop ap cl_create cl_destroy cl_set_cb cl_check cl_info
                0 client_count pool w of
           (pool1, w1) \<Rightarrow> (Some pool1, w1))"

subsection \<open>client\_pool\_destroy\<close>

text \<open>
  \<open>g_queue_free_full (pool->q_requests, g_free)\<close> frees every queued \<open>RequestData\<close>; it
  calls no function pointer, so it leaves the external state alone. Then every client
  is destroyed through its own \<open>client_destroy\<close>. The pool is gone afterwards: only the
  external state is returned.
\<close>

fun destroy_loop :: "'w PoolClient list \<Rightarrow> 'w \<Rightarrow> 'w" where
  "destroy_loop [] w = w"
| "destroy_loop (pc # l) w = destroy_loop l (client_destroy pc (client pc) w)"

definition client_pool_destroy :: "'w ClientPool \<Rightarrow> 'w \<Rightarrow> 'w" where
  "client_pool_destroy pool w = destroy_loop (l_clients pool) w"

subsection \<open>client\_pool\_on\_client\_released\<close>

text \<open>
  The callback a client runs when it is done with a request. \<open>cl\<close> is the handle the
  client passes, \<open>pc\<close> the context registered at creation (used for \<open>pc->pool\<close> only).
\<close>

definition client_pool_on_client_released ::
  "'w ClientPool \<Rightarrow> gpointer \<Rightarrow> 'w PoolClient \<Rightarrow> 'w \<Rightarrow> 'w ClientPool \<times> 'w" where
  "client_pool_on_client_released pool cl pc w =
     (case g_queue_pop_head (q_requests pool) of
        (None, q) \<Rightarrow> (pool\<lparr>q_requests := q\<rparr>, w)
      | (Some data, q) \<Rightarrow>
          (pool\<lparr>q_requests := q\<rparr>, on_client_ready data cl (ctx data) w))"

subsection \<open>client\_pool\_get\_client\<close>

text \<open>
  The readiness scan: the first client of the list whose own readiness check holds.
\<close>

fun get_client_scan :: "'w PoolClient list \<Rightarrow> 'w \<Rightarrow> 'w PoolClient option" where
  "get_client_scan [] w = None"
| "get_client_scan (pc # l) w =
     (if client_check_rediness pc (client pc) w then Some pc else get_client_scan l w)"

definition client_pool_get_client ::
  "'w ClientPool \<Rightarrow> 'w ClientPool_on_client_ready \<Rightarrow> gpointer \<Rightarrow> 'w \<Rightarrow>
   bool \<times> 'w ClientPool \<times> 'w" where
  "client_pool_get_client pool on_ready cx w =
     (if g_queue_get_length (q_requests pool)
           \<ge> conf_get_uint (conf pool) ''pool.max_requests_per_pool''
      then (False, pool, w)
      else (case get_client_scan (l_clients pool) w of
              Some pc \<Rightarrow> (True, pool, on_ready (client pc) cx w)
            | None \<Rightarrow>
                let data = \<lparr>on_client_ready = on_ready, ctx = cx\<rparr>
                in (True, pool\<lparr>q_requests := g_queue_push_tail (q_requests pool) data\<rparr>, w)))"

subsection \<open>client\_pool\_get\_task\_list\<close>

text \<open>
  \<open>client_get_info\<close> only reads the external state (a diagnostic snapshot). The
  function returns the grown list; the pool is returned beside it, as the source leaves
  it.
\<close>

fun get_task_list_loop ::
  "'w PoolClient list \<Rightarrow> ClientInfo list \<Rightarrow> string \<Rightarrow> 'w \<Rightarrow> ClientInfo list" where
  "get_task_list_loop [] l_tasks name w = l_tasks"
| "get_task_list_loop (pc # l) l_tasks name w =
     (let client_info = client_get_info pc (client pc) w;
          client_info1 = client_info\<lparr>pool_name := name\<rparr>
      in get_task_list_loop l (g_list_append l_tasks client_info1) name w)"

definition client_pool_get_task_list ::
  "'w ClientPool \<Rightarrow> ClientInfo list \<Rightarrow> string \<Rightarrow> 'w \<Rightarrow> ClientInfo list \<times> 'w ClientPool" where
  "client_pool_get_task_list pool l_tasks name w =
     (get_task_list_loop (l_clients pool) l_tasks name w, pool)"

subsection \<open>Vocabulary of the properties\<close>

text \<open>The configured bound of the wait queue, and a client's own readiness check.\<close>

definition max_requests_per_pool :: "'w ClientPool \<Rightarrow> nat" where
  "max_requests_per_pool pool = conf_get_uint (conf pool) ''pool.max_requests_per_pool''"

definition is_ready :: "'w PoolClient \<Rightarrow> 'w \<Rightarrow> bool" where
  "is_ready pc w = client_check_rediness pc (client pc) w"

text \<open>
  A history of pool calls in an arbitrary external state: the two entry points that
  change the pool, the introspection call, and whatever the outside does to the
  external state between two calls.
\<close>

datatype 'w pool_call =
    Get_client "'w ClientPool_on_client_ready" gpointer
  | Client_released gpointer "'w PoolClient"
  | Get_task_list "ClientInfo list" string
  | External "'w \<Rightarrow> 'w"

fun do_pool_call :: "'w ClientPool \<times> 'w \<Rightarrow> 'w pool_call \<Rightarrow> 'w ClientPool \<times> 'w" where
  "do_pool_call (pool, w) (Get_client on_ready cx) =
     snd (client_pool_get_client pool on_ready cx w)"
| "do_pool_call (pool, w) (Client_released cl pc) =
     client_pool_on_client_released pool cl pc w"
| "do_pool_call (pool, w) (Get_task_list l_tasks name) =
     (snd (client_pool_get_task_list pool l_tasks name w), w)"
| "do_pool_call (pool, w) (External f) = (pool, f w)"

definition pool_calls :: "'w ClientPool \<times> 'w \<Rightarrow> 'w pool_call list \<Rightarrow> 'w ClientPool \<times> 'w" where
  "pool_calls s cs = foldl do_pool_call s cs"

text \<open>The queue respects the bound \<open>m\<close>, which is the configured one.\<close>

definition queue_bounded :: "'w ClientPool \<Rightarrow> nat \<Rightarrow> bool" where
  "queue_bounded pool m = (max_requests_per_pool pool = m \<and> length (q_requests pool) \<le> m)"

subsection \<open>An external state that records what the pool does\<close>

text \<open>
  The clients and callers the pool is written for, as an instance of the external
  state: \<open>requests\<close> holds one entry per request in flight (the handle it runs on),
  \<open>served\<close> the callbacks run so far (context and handle, in order), \<open>destroyed\<close> the
  handles destroyed, \<open>wired\<close> the handles whose release callback was registered and
  \<open>created\<close> the number of clients the factory made.
\<close>

record usage =
  requests :: "gpointer list"
  served :: "(gpointer \<times> gpointer) list"
  destroyed :: "gpointer list"
  wired :: "gpointer list"
  created :: nat

definition usage0 :: usage where
  "usage0 = \<lparr>requests = [], served = [], destroyed = [], wired = [], created = 0\<rparr>"

text \<open>A client is ready exactly when it has no request in flight.\<close>

definition is_idle :: "usage ClientPool_client_check_rediness" where
  "is_idle h u = (h \<notin> set (requests u))"

text \<open>The caller's callback: it starts a request on the handle it is given.\<close>

definition start_request :: "usage ClientPool_on_client_ready" where
  "start_request h c u = u\<lparr>requests := h # requests u, served := served u @ [(c, h)]\<rparr>"

text \<open>A client finishes one request; it notifies the pool right after.\<close>

definition finish_request :: "gpointer \<Rightarrow> usage \<Rightarrow> usage" where
  "finish_request h u = u\<lparr>requests := remove1 h (requests u)\<rparr>"

definition mark_destroyed :: "usage ClientPool_client_destroy" where
  "mark_destroyed h u = u\<lparr>destroyed := destroyed u @ [h]\<rparr>"

definition describe_client :: "usage ClientPool_client_get_info" where
  "describe_client h u =
     \<lparr>pool_name = [], details = (if h \<in> set (requests u) then ''busy'' else ''idle'')\<rparr>"

definition new_client :: "usage ClientPool_client_create" where
  "new_client ap u = (Suc (created u), u\<lparr>created := Suc (created u)\<rparr>)"

definition wire_release :: "usage ClientPool_client_set_on_released_cb" where
  "wire_release h pc u = u\<lparr>wired := wired u @ [h]\<rparr>"

definition usage_client :: "gpointer \<Rightarrow> usage PoolClient" where
  "usage_client h = \<lparr>client_check_rediness = is_idle, client_destroy = mark_destroyed,
     client_get_info = describe_client, client = h\<rparr>"

definition usage_request :: "gpointer \<Rightarrow> usage RequestData" where
  "usage_request c = \<lparr>on_client_ready = start_request, ctx = c\<rparr>"

definition usage_app :: "nat \<Rightarrow> Application" where
  "usage_app m = \<lparr>app_conf = (\<lambda>path. m), app_evbase = NULL, app_dnsbase = NULL\<rparr>"

text \<open>The pool of clients \<open>hs\<close> with queue bound \<open>m\<close> and the callers \<open>cs\<close> waiting.\<close>

definition usage_pool :: "nat \<Rightarrow> gpointer list \<Rightarrow> gpointer list \<Rightarrow> usage ClientPool" where
  "usage_pool m hs cs = \<lparr>app = usage_app m, conf = application_get_conf (usage_app m),
     evbase = NULL, dns_base = NULL,
     l_clients = map usage_client hs, q_requests = map usage_request cs\<rparr>"

text \<open>
  A pool fits this external state when every readiness check is \<open>is_idle\<close> and every
  queued callback is \<open>start_request\<close>.
\<close>

definition usage_wf :: "usage ClientPool \<Rightarrow> bool" where
  "usage_wf pool =
     ((\<forall>pc \<in> set (l_clients pool). client_check_rediness pc = is_idle)
      \<and> (\<forall>data \<in> set (q_requests pool). on_client_ready data = start_request))"

text \<open>
  Events of a run: a caller asks for a client with context \<open>c\<close>, or the client at
  position \<open>i\<close> finishes its request and notifies the pool. A client that has no
  request in flight issues no notification, and neither does a client that does not
  exist: such a schedule is no run (\<open>None\<close>).
\<close>

datatype event = Acquire gpointer | Release nat

record system =
  sys_pool :: "usage ClientPool"
  sys_world :: usage
  sys_returned :: "bool list"

fun sys_step :: "system \<Rightarrow> event \<Rightarrow> system option" where
  "sys_step s (Acquire c) =
     (case client_pool_get_client (sys_pool s) start_request c (sys_world s) of
        (r, pool1, u1) \<Rightarrow>
          Some \<lparr>sys_pool = pool1, sys_world = u1, sys_returned = sys_returned s @ [r]\<rparr>)"
| "sys_step s (Release i) =
     (if i < length (l_clients (sys_pool s))
         \<and> client (l_clients (sys_pool s) ! i) \<in> set (requests (sys_world s))
      then (let pc = l_clients (sys_pool s) ! i in
            case client_pool_on_client_released (sys_pool s) (client pc) pc
                   (finish_request (client pc) (sys_world s)) of
              (pool1, u1) \<Rightarrow>
                Some \<lparr>sys_pool = pool1, sys_world = u1, sys_returned = sys_returned s\<rparr>)
      else None)"

fun sys_exec :: "event list \<Rightarrow> system \<Rightarrow> system option" where
  "sys_exec [] s = Some s"
| "sys_exec (e # es) s = (case sys_step s e of None \<Rightarrow> None | Some s1 \<Rightarrow> sys_exec es s1)"

text \<open>A property of the state in which each \<open>Acquire\<close> of a run is called.\<close>

fun at_every_acquire :: "(system \<Rightarrow> gpointer \<Rightarrow> bool) \<Rightarrow> event list \<Rightarrow> system \<Rightarrow> bool" where
  "at_every_acquire P [] s = True"
| "at_every_acquire P (e # es) s =
     ((case e of Acquire c \<Rightarrow> P s c | Release i \<Rightarrow> True)
      \<and> (case sys_step s e of None \<Rightarrow> True | Some s1 \<Rightarrow> at_every_acquire P es s1))"

text \<open>Fewer than all clients of the pool have a request in flight.\<close>

definition fewer_busy :: "system \<Rightarrow> gpointer \<Rightarrow> bool" where
  "fewer_busy s c =
     (length (filter (\<lambda>pc. client pc \<in> set (requests (sys_world s))) (l_clients (sys_pool s)))
        < length (l_clients (sys_pool s)))"

text \<open>
  The call \<open>Acquire c\<close> in state \<open>s\<close> is served synchronously: it returns TRUE, the
  callback has run on the handle of a client of the pool, and nothing was queued.
\<close>

definition served_sync :: "system \<Rightarrow> gpointer \<Rightarrow> bool" where
  "served_sync s c =
     (case client_pool_get_client (sys_pool s) start_request c (sys_world s) of
        (r, pool1, u1) \<Rightarrow>
          r \<and> q_requests pool1 = q_requests (sys_pool s)
          \<and> (\<exists>pc \<in> set (l_clients (sys_pool s)). u1 = start_request (client pc) c (sys_world s)))"

text \<open>Every client of the pool has a request in flight.\<close>

definition all_busy :: "system \<Rightarrow> bool" where
  "all_busy s = (\<forall>pc \<in> set (l_clients (sys_pool s)). client pc \<in> set (requests (sys_world s)))"

text \<open>The system right after creation: clients \<open>hs\<close>, bound \<open>m\<close>, nothing has happened yet.\<close>

definition usage_system :: "nat \<Rightarrow> gpointer list \<Rightarrow> system" where
  "usage_system m hs = \<lparr>sys_pool = usage_pool m hs [], sys_world = usage0, sys_returned = []\<rparr>"

section \<open>Properties\<close>

subsection \<open>The readiness scan\<close>

lemma get_client_scan_None:
  "(get_client_scan l w = None) = (\<forall>p \<in> set l. \<not> is_ready p w)"
  by (induction l) (auto simp: is_ready_def)

lemma get_client_scan_first:
  "\<forall>p \<in> set pre. \<not> is_ready p w \<Longrightarrow> is_ready pc w \<Longrightarrow>
   get_client_scan (pre @ pc # post) w = Some pc"
  by (induction pre) (auto simp: is_ready_def)

lemmas usage_defs = usage_pool_def usage_client_def usage_request_def usage_app_def
  is_idle_def start_request_def finish_request_def max_requests_per_pool_def
  conf_get_uint_def application_get_conf_def is_ready_def usage0_def

subsection \<open>Acquire\<close>

text \<open>
  C1. \<open>client_pool_get_client\<close> dispatches in three steps. If the wait queue holds at
  least \<open>pool.max_requests_per_pool\<close> requests it returns FALSE and changes neither the
  pool nor the external state. Otherwise, for the first client of \<open>l_clients\<close> whose
  readiness check holds (every client before it is not ready), it runs the callback on
  that client's handle and the caller's context and returns TRUE, the pool unchanged.
  Otherwise, when no client is ready, it appends the request (callback and context) to
  the tail of the queue, runs nothing, and returns TRUE.
\<close>

theorem get_client_dispatch:
  "(max_requests_per_pool pool \<le> length (q_requests pool) \<longrightarrow>
      client_pool_get_client pool on_ready cx w = (False, pool, w))
   \<and> (length (q_requests pool) < max_requests_per_pool pool \<longrightarrow>
      (\<forall>pre pc post. l_clients pool = pre @ pc # post
          \<and> (\<forall>p \<in> set pre. \<not> is_ready p w) \<and> is_ready pc w \<longrightarrow>
        client_pool_get_client pool on_ready cx w = (True, pool, on_ready (client pc) cx w)))
   \<and> (length (q_requests pool) < max_requests_per_pool pool
        \<and> (\<forall>p \<in> set (l_clients pool). \<not> is_ready p w) \<longrightarrow>
      client_pool_get_client pool on_ready cx w =
        (True, pool\<lparr>q_requests := q_requests pool @ [\<lparr>on_client_ready = on_ready, ctx = cx\<rparr>]\<rparr>, w))"
proof (intro conjI impI allI)
  assume "max_requests_per_pool pool \<le> length (q_requests pool)"
  then show "client_pool_get_client pool on_ready cx w = (False, pool, w)"
    by (simp add: client_pool_get_client_def max_requests_per_pool_def g_queue_get_length_def)
next
  fix pre pc post
  assume adm: "length (q_requests pool) < max_requests_per_pool pool"
    and sc: "l_clients pool = pre @ pc # post \<and> (\<forall>p \<in> set pre. \<not> is_ready p w) \<and> is_ready pc w"
  from sc have "get_client_scan (l_clients pool) w = Some pc"
    by (simp add: get_client_scan_first)
  with adm show "client_pool_get_client pool on_ready cx w = (True, pool, on_ready (client pc) cx w)"
    by (simp add: client_pool_get_client_def max_requests_per_pool_def g_queue_get_length_def)
next
  assume h: "length (q_requests pool) < max_requests_per_pool pool
        \<and> (\<forall>p \<in> set (l_clients pool). \<not> is_ready p w)"
  then have "get_client_scan (l_clients pool) w = None"
    by (simp add: get_client_scan_None)
  with h show "client_pool_get_client pool on_ready cx w =
        (True, pool\<lparr>q_requests := q_requests pool @ [\<lparr>on_client_ready = on_ready, ctx = cx\<rparr>]\<rparr>, w)"
    by (simp add: client_pool_get_client_def max_requests_per_pool_def g_queue_get_length_def
        g_queue_push_tail_def)
qed

text \<open>
  A pool of two clients with bound 1: rejected with one caller waiting; served on the
  second client while the first is busy; queued while both are busy.
\<close>

theorem get_client_dispatch_witness:
  "client_pool_get_client (usage_pool 1 [10, 20] [5]) start_request 7 usage0
     = (False, usage_pool 1 [10, 20] [5], usage0)
   \<and> client_pool_get_client (usage_pool 1 [10, 20] []) start_request 7
        (usage0\<lparr>requests := [10], served := [(3, 10)]\<rparr>)
     = (True, usage_pool 1 [10, 20] [],
        usage0\<lparr>requests := [20, 10], served := [(3, 10), (7, 20)]\<rparr>)
   \<and> client_pool_get_client (usage_pool 1 [10, 20] []) start_request 7
        (usage0\<lparr>requests := [20, 10]\<rparr>)
     = (True, usage_pool 1 [10, 20] [7], usage0\<lparr>requests := [20, 10]\<rparr>)"
proof (intro conjI)
  let ?p = "usage_pool 1 [10, 20] [5]"
  have "max_requests_per_pool ?p \<le> length (q_requests ?p)" by (simp add: usage_defs)
  with get_client_dispatch [of ?p start_request 7 usage0]
  show "client_pool_get_client ?p start_request 7 usage0 = (False, ?p, usage0)" by blast
next
  let ?u = "usage0\<lparr>requests := [10], served := [(3, 10)]\<rparr>"
  let ?p = "usage_pool 1 [10, 20] []"
  have a: "length (q_requests ?p) < max_requests_per_pool ?p" by (simp add: usage_defs)
  have b: "l_clients ?p = [usage_client 10] @ usage_client 20 # []
      \<and> (\<forall>p \<in> set [usage_client 10]. \<not> is_ready p ?u) \<and> is_ready (usage_client 20) ?u"
    by (simp add: usage_defs)
  from get_client_dispatch [of ?p start_request 7 ?u] a b
  have "client_pool_get_client ?p start_request 7 ?u
     = (True, ?p, start_request (client (usage_client 20)) 7 ?u)" by blast
  then show "client_pool_get_client ?p start_request 7 ?u
     = (True, ?p, usage0\<lparr>requests := [20, 10], served := [(3, 10), (7, 20)]\<rparr>)"
    by (simp add: usage_defs)
next
  let ?u = "usage0\<lparr>requests := [20, 10]\<rparr>"
  let ?p = "usage_pool 1 [10, 20] []"
  have a: "length (q_requests ?p) < max_requests_per_pool ?p
      \<and> (\<forall>p \<in> set (l_clients ?p). \<not> is_ready p ?u)" by (simp add: usage_defs)
  from get_client_dispatch [of ?p start_request 7 ?u] a
  have "client_pool_get_client ?p start_request 7 ?u
     = (True, ?p\<lparr>q_requests := q_requests ?p @ [\<lparr>on_client_ready = start_request, ctx = 7\<rparr>]\<rparr>, ?u)"
    by blast
  then show "client_pool_get_client ?p start_request 7 ?u
     = (True, usage_pool 1 [10, 20] [7], ?u)"
    by (simp add: usage_defs)
qed

subsection \<open>Release notification\<close>

text \<open>
  C2. \<open>client_pool_on_client_released\<close> pops the head of the wait queue. With an empty
  queue it leaves the pool and the external state as they are (no callback runs). With
  a queue \<open>data # rest\<close> it runs the callback stored in \<open>data\<close> on the handle the
  releasing client passed and on the context stored in \<open>data\<close>, and the queue becomes
  \<open>rest\<close>. No readiness check is consulted: the statement holds for every external
  state.
\<close>

theorem on_client_released_handoff:
  "(q_requests pool = [] \<longrightarrow> client_pool_on_client_released pool cl pc w = (pool, w))
   \<and> (\<forall>data rest. q_requests pool = data # rest \<longrightarrow>
        client_pool_on_client_released pool cl pc w =
          (pool\<lparr>q_requests := rest\<rparr>, on_client_ready data cl (ctx data) w))"
  by (simp add: client_pool_on_client_released_def)

text \<open>
  Client 20 releases: nothing happens with an empty queue; with callers 7 and 8
  waiting, caller 7 gets handle 20 although client 10 is idle and comes first in the
  scan order.
\<close>

theorem on_client_released_handoff_witness:
  "client_pool_on_client_released (usage_pool 2 [10, 20] []) 20 (usage_client 20)
       (usage0\<lparr>requests := [10]\<rparr>)
     = (usage_pool 2 [10, 20] [], usage0\<lparr>requests := [10]\<rparr>)
   \<and> client_pool_on_client_released (usage_pool 2 [10, 20] [7, 8]) 20 (usage_client 20)
       usage0
     = (usage_pool 2 [10, 20] [8], usage0\<lparr>requests := [20], served := [(7, 20)]\<rparr>)"
proof (intro conjI)
  let ?p = "usage_pool 2 [10, 20] []"
  have "q_requests ?p = []" by (simp add: usage_defs)
  with on_client_released_handoff [of ?p 20 "usage_client 20" "usage0\<lparr>requests := [10]\<rparr>"]
  show "client_pool_on_client_released ?p 20 (usage_client 20) (usage0\<lparr>requests := [10]\<rparr>)
     = (?p, usage0\<lparr>requests := [10]\<rparr>)" by blast
next
  let ?p = "usage_pool 2 [10, 20] [7, 8]"
  have "q_requests ?p = usage_request 7 # [usage_request 8]" by (simp add: usage_defs)
  with on_client_released_handoff [of ?p 20 "usage_client 20" usage0]
  have "client_pool_on_client_released ?p 20 (usage_client 20) usage0
     = (?p\<lparr>q_requests := [usage_request 8]\<rparr>,
        on_client_ready (usage_request 7) 20 (ctx (usage_request 7)) usage0)" by blast
  then show "client_pool_on_client_released ?p 20 (usage_client 20) usage0
     = (usage_pool 2 [10, 20] [8], usage0\<lparr>requests := [20], served := [(7, 20)]\<rparr>)"
    by (simp add: usage_defs)
qed

subsection \<open>Introspection\<close>

lemma get_task_list_loop_append:
  "get_task_list_loop l l_tasks name w =
     l_tasks @ map (\<lambda>pc. (client_get_info pc (client pc) w)\<lparr>pool_name := name\<rparr>) l"
  by (induction l arbitrary: l_tasks) (simp_all add: g_list_append_def Let_def)

text \<open>
  C9. \<open>client_pool_get_task_list\<close> returns the caller's list followed by one record per
  client of \<open>l_clients\<close>, in list order: what the client's \<open>client_get_info\<close> returns on
  its handle, with \<open>pool_name\<close> set to the name supplied. So the list grows by exactly
  the number of clients, the caller's entries stay in front, every new record carries
  the pool name, and the pool (clients and wait queue) is the one passed in.
\<close>

theorem get_task_list_appends:
  "client_pool_get_task_list pool l_tasks name w =
     (l_tasks @ map (\<lambda>pc. (client_get_info pc (client pc) w)\<lparr>pool_name := name\<rparr>) (l_clients pool),
      pool)
   \<and> length (fst (client_pool_get_task_list pool l_tasks name w))
       = length l_tasks + length (l_clients pool)
   \<and> take (length l_tasks) (fst (client_pool_get_task_list pool l_tasks name w)) = l_tasks
   \<and> list_all (\<lambda>info. pool_name info = name)
        (drop (length l_tasks) (fst (client_pool_get_task_list pool l_tasks name w)))
   \<and> snd (client_pool_get_task_list pool l_tasks name w) = pool"
  by (simp add: client_pool_get_task_list_def get_task_list_loop_append list_all_iff)

theorem get_task_list_appends_witness:
  "client_pool_get_task_list (usage_pool 1 [10, 20] [7])
      [\<lparr>pool_name = ''read'', details = ''idle''\<rparr>] ''write'' (usage0\<lparr>requests := [20]\<rparr>)
   = ([\<lparr>pool_name = ''read'', details = ''idle''\<rparr>,
       \<lparr>pool_name = ''write'', details = ''idle''\<rparr>,
       \<lparr>pool_name = ''write'', details = ''busy''\<rparr>],
      usage_pool 1 [10, 20] [7])"
  using get_task_list_appends [of "usage_pool 1 [10, 20] [7]"
      "[\<lparr>pool_name = ''read'', details = ''idle''\<rparr>]" "''write''" "usage0\<lparr>requests := [20]\<rparr>"]
  by (simp add: usage_defs describe_client_def)

subsection \<open>Destroy\<close>

lemma destroy_loop_foldl:
  "destroy_loop l w = foldl (\<lambda>w pc. client_destroy pc (client pc) w) w l"
  by (induction l arbitrary: w) simp_all

lemma destroy_loop_marks:
  "\<forall>pc \<in> set l. client_destroy pc = mark_destroyed \<Longrightarrow>
   destroy_loop l u = u\<lparr>destroyed := destroyed u @ map client l\<rparr>"
  by (induction l arbitrary: u) (simp_all add: mark_destroyed_def)

text \<open>
  C8. \<open>client_pool_destroy\<close> changes the external state by one call of each client's
  \<open>client_destroy\<close> on that client's handle, in list order, and by nothing else: the
  queued requests do not occur in the result, so no queued callback runs. In the
  recording external state, where destroying a handle is logged, the log grows by
  exactly the handles of \<open>l_clients\<close>, one entry per client, while the callbacks served
  and the requests in flight stay as they were, whatever is queued.
\<close>

theorem destroy_every_client_once:
  "client_pool_destroy pool w
     = foldl (\<lambda>w pc. client_destroy pc (client pc) w) w (l_clients pool)
   \<and> ((\<forall>pc \<in> set (l_clients upool). client_destroy pc = mark_destroyed) \<longrightarrow>
        client_pool_destroy upool u
          = u\<lparr>destroyed := destroyed u @ map client (l_clients upool)\<rparr>
        \<and> served (client_pool_destroy upool u) = served u
        \<and> requests (client_pool_destroy upool u) = requests u)"
proof (intro conjI impI)
  show "client_pool_destroy pool w
     = foldl (\<lambda>w pc. client_destroy pc (client pc) w) w (l_clients pool)"
    by (simp add: client_pool_destroy_def destroy_loop_foldl)
next
  assume a: "\<forall>pc \<in> set (l_clients upool). client_destroy pc = mark_destroyed"
  then show e: "client_pool_destroy upool u
          = u\<lparr>destroyed := destroyed u @ map client (l_clients upool)\<rparr>"
    by (simp add: client_pool_destroy_def destroy_loop_marks)
  from e show "served (client_pool_destroy upool u) = served u" by simp
  from e show "requests (client_pool_destroy upool u) = requests u" by simp
qed

text \<open>Two clients and two callers still waiting: both handles destroyed, nobody served.\<close>

theorem destroy_every_client_once_witness:
  "client_pool_destroy (usage_pool 2 [10, 20] [7, 8]) (usage0\<lparr>requests := [20, 10]\<rparr>)
     = usage0\<lparr>requests := [20, 10], destroyed := [10, 20]\<rparr>"
proof -
  let ?p = "usage_pool 2 [10, 20] [7, 8]"
  have "\<forall>pc \<in> set (l_clients ?p). client_destroy pc = mark_destroyed"
    by (simp add: usage_defs)
  with destroy_every_client_once [of ?p "usage0\<lparr>requests := [20, 10]\<rparr>" ?p
      "usage0\<lparr>requests := [20, 10]\<rparr>"]
  have "client_pool_destroy ?p (usage0\<lparr>requests := [20, 10]\<rparr>)
     = (usage0\<lparr>requests := [20, 10]\<rparr>)\<lparr>destroyed :=
          destroyed (usage0\<lparr>requests := [20, 10]\<rparr>) @ map client (l_clients ?p)\<rparr>"
    by blast
  then show ?thesis by (simp add: usage_defs)
qed

subsection \<open>Create\<close>

text \<open>
  The loop leaves the queue and the configuration alone and adds one client per
  iteration; \<open>client_pool_create\<close> never returns NULL.
\<close>

lemma create_loop_frame:
  "create_loop ap cr de se ch gi i n pool w = (pool1, w1) \<Longrightarrow>
   q_requests pool1 = q_requests pool \<and> conf pool1 = conf pool \<and> app pool1 = app pool
   \<and> evbase pool1 = evbase pool \<and> dns_base pool1 = dns_base pool
   \<and> length (l_clients pool1) = length (l_clients pool) + nat (n - i)"
proof (induction "nat (n - i)" arbitrary: i pool w)
  case 0
  then show ?case by (simp add: create_loop.simps [of _ _ _ _ _ _ i n])
next
  case (Suc k)
  then have lt: "i < n" and k: "k = nat (n - (i + 1))" by simp_all
  obtain h wa where cr: "cr ap w = (h, wa)" by (cases "cr ap w")
  let ?pc = "\<lparr>client_check_rediness = ch, client_destroy = de,
                     client_get_info = gi, client = h\<rparr>"
  let ?pool = "pool\<lparr>l_clients := g_list_append (l_clients pool) ?pc\<rparr>"
  from Suc.prems lt cr
  have rec: "create_loop ap cr de se ch gi (i + 1) n ?pool (se h ?pc wa) = (pool1, w1)"
    by (simp add: create_loop.simps [of _ _ _ _ _ _ i n] Let_def)
  from Suc.hyps(1) [OF k rec] lt show ?case by (simp add: g_list_append_def)
qed

lemma client_pool_create_never_NULL:
  "fst (client_pool_create ap n cr de se ch gi w) \<noteq> None"
  by (simp add: client_pool_create_def Let_def split: prod.splits)

lemma client_pool_create_frame:
  assumes "client_pool_create ap n cr de se ch gi w = (Some pool, w1)"
  shows "q_requests pool = [] \<and> conf pool = application_get_conf ap
    \<and> length (l_clients pool) = nat n"
  using assms create_loop_frame [of ap cr de se ch gi 0 n _ w pool w1]
  by (auto simp: client_pool_create_def Let_def g_queue_new_def split: prod.splits)

lemma create_loop_usage:
  "create_loop (usage_app m) new_client mark_destroyed wire_release is_idle describe_client
      i n pool u
   = (pool\<lparr>l_clients := l_clients pool
               @ map usage_client [Suc (created u) ..< Suc (created u) + nat (n - i)]\<rparr>,
      u\<lparr>wired := wired u @ [Suc (created u) ..< Suc (created u) + nat (n - i)],
        created := created u + nat (n - i)\<rparr>)"
proof (induction "nat (n - i)" arbitrary: i pool u)
  case 0
  then have "\<not> i < n" by simp
  with 0 show ?case by (simp add: create_loop.simps [of _ _ _ _ _ _ i n])
next
  case (Suc k)
  then have lt: "i < n" and k: "k = nat (n - (i + 1))" by simp_all
  have nn: "nat (n - i) = Suc (nat (n - (i + 1)))" using lt by simp
  show ?case
    apply (subst create_loop.simps)
    apply (simp only: lt if_True new_client_def prod.case Let_def)
    apply (subst Suc.hyps(1) [OF k])
    apply (simp add: nn g_list_append_def wire_release_def usage_client_def upt_conv_Cons)
    done
qed

lemma client_pool_create_usage:
  "client_pool_create (usage_app m) (int n) new_client mark_destroyed wire_release is_idle
      describe_client usage0
   = (Some (usage_pool m [1 ..< Suc n] []),
      usage0\<lparr>wired := [1 ..< Suc n], created := n\<rparr>)"
  apply (simp add: client_pool_create_def Let_def create_loop_usage g_queue_new_def)
  apply (simp add: usage_pool_def usage0_def usage_app_def application_get_conf_def
      application_get_evbase_def application_get_dnsbase_def)
  done

text \<open>
  C7. The factory fails by returning NULL. Asked for one client with a factory that
  returns NULL, \<open>client_pool_create\<close> does not return NULL (the comment above it says
  ``return NULL if error''): it returns a pool whose only client wraps the NULL handle,
  after registering the release callback on NULL.
\<close>

theorem create_masks_factory_failure:
  "client_pool_create (usage_app 1) 1 (\<lambda>ap u. (NULL, u)) mark_destroyed wire_release is_idle
      describe_client usage0
   = (Some (usage_pool 1 [NULL] []), usage0\<lparr>wired := [NULL]\<rparr>)"
  by (simp add: create_loop.simps [of _ _ _ _ _ _ 0 1] create_loop.simps [of _ _ _ _ _ _ 1 1] client_pool_create_def Let_def usage_pool_def usage0_def
      application_get_conf_def application_get_evbase_def application_get_dnsbase_def
      g_queue_new_def usage_app_def g_list_append_def wire_release_def usage_client_def)

subsection \<open>The bound of the wait queue\<close>

lemma get_client_queue:
  "client_pool_get_client pool on_ready cx w = (r, pool1, w1) \<Longrightarrow>
   conf pool1 = conf pool \<and> l_clients pool1 = l_clients pool
   \<and> (q_requests pool1 = q_requests pool
        \<or> (length (q_requests pool) < max_requests_per_pool pool
            \<and> q_requests pool1 = q_requests pool @ [\<lparr>on_client_ready = on_ready, ctx = cx\<rparr>]))"
  by (auto simp: client_pool_get_client_def max_requests_per_pool_def g_queue_get_length_def
      g_queue_push_tail_def Let_def split: if_splits option.splits)

lemma on_client_released_queue:
  "client_pool_on_client_released pool cl pc w = (pool1, w1) \<Longrightarrow>
   conf pool1 = conf pool \<and> l_clients pool1 = l_clients pool
   \<and> q_requests pool1 = tl (q_requests pool)"
  by (cases "q_requests pool") (auto simp: client_pool_on_client_released_def)

lemma do_pool_call_bounded:
  "queue_bounded (fst s) m \<Longrightarrow> queue_bounded (fst (do_pool_call s c)) m"
proof (cases s)
  case (Pair pool w)
  assume b: "queue_bounded (fst s) m"
  show ?thesis
  proof (cases c)
    case (Get_client on_ready cx)
    obtain r pool1 w1 where g: "client_pool_get_client pool on_ready cx w = (r, pool1, w1)"
      by (cases "client_pool_get_client pool on_ready cx w") auto
    from get_client_queue [OF g] b Pair Get_client g show ?thesis
      by (auto simp: queue_bounded_def max_requests_per_pool_def)
  next
    case (Client_released cl pc)
    obtain pool1 w1 where g: "client_pool_on_client_released pool cl pc w = (pool1, w1)"
      by (cases "client_pool_on_client_released pool cl pc w") auto
    from on_client_released_queue [OF g] b Pair Client_released g show ?thesis
      by (auto simp: queue_bounded_def max_requests_per_pool_def)
  next
    case (Get_task_list l_tasks name)
    with b Pair show ?thesis by (simp add: client_pool_get_task_list_def)
  next
    case (External f)
    with b Pair show ?thesis by simp
  qed
qed

lemma pool_calls_bounded:
  "queue_bounded (fst s) m \<Longrightarrow> queue_bounded (fst (pool_calls s cs)) m"
  unfolding pool_calls_def
  by (induction cs arbitrary: s) (simp_all add: do_pool_call_bounded)

text \<open>
  C5. In every pool reached from \<open>client_pool_create\<close> by any history of pool calls,
  in any external state and whatever the outside does between the calls, the wait
  queue holds at most \<open>pool.max_requests_per_pool\<close> requests, and that bound is the one
  configured at creation. More generally the bound is kept from any pool that respects
  it. \<open>client_pool_get_client\<close> returns FALSE and changes nothing when the queue is at
  the bound; whatever it does, the requests queued before are still there, in front
  (nothing is evicted); the release notification and the introspection call never
  lengthen the queue.
\<close>

theorem wait_queue_bounded:
  "(client_pool_create ap n cr de se ch gi w0 = (Some pool0, w) \<longrightarrow>
      length (q_requests (fst (pool_calls (pool0, w) cs)))
        \<le> conf_get_uint (application_get_conf ap) ''pool.max_requests_per_pool''
      \<and> max_requests_per_pool (fst (pool_calls (pool0, w) cs))
        = conf_get_uint (application_get_conf ap) ''pool.max_requests_per_pool'')
   \<and> (length (q_requests pool) \<le> max_requests_per_pool pool \<longrightarrow>
      length (q_requests (fst (pool_calls (pool, w) cs))) \<le> max_requests_per_pool pool)
   \<and> (max_requests_per_pool pool \<le> length (q_requests pool) \<longrightarrow>
      client_pool_get_client pool on_ready cx w = (False, pool, w))
   \<and> take (length (q_requests pool))
        (q_requests (fst (snd (client_pool_get_client pool on_ready cx w)))) = q_requests pool
   \<and> length (q_requests (fst (client_pool_on_client_released pool cl pc w)))
        \<le> length (q_requests pool)
   \<and> q_requests (snd (client_pool_get_task_list pool l_tasks name w)) = q_requests pool"
proof (intro conjI impI)
  assume c: "client_pool_create ap n cr de se ch gi w0 = (Some pool0, w)"
  from client_pool_create_frame [OF c]
  have "queue_bounded (fst (pool0, w))
          (conf_get_uint (application_get_conf ap) ''pool.max_requests_per_pool'')"
    by (simp add: queue_bounded_def max_requests_per_pool_def)
  from pool_calls_bounded [OF this, of cs]
  show "length (q_requests (fst (pool_calls (pool0, w) cs)))
        \<le> conf_get_uint (application_get_conf ap) ''pool.max_requests_per_pool''"
    and "max_requests_per_pool (fst (pool_calls (pool0, w) cs))
        = conf_get_uint (application_get_conf ap) ''pool.max_requests_per_pool''"
    by (simp_all add: queue_bounded_def)
next
  assume "length (q_requests pool) \<le> max_requests_per_pool pool"
  then have "queue_bounded (fst (pool, w)) (max_requests_per_pool pool)"
    by (simp add: queue_bounded_def)
  from pool_calls_bounded [OF this, of cs]
  show "length (q_requests (fst (pool_calls (pool, w) cs))) \<le> max_requests_per_pool pool"
    by (simp add: queue_bounded_def)
next
  assume "max_requests_per_pool pool \<le> length (q_requests pool)"
  then show "client_pool_get_client pool on_ready cx w = (False, pool, w)"
    by (simp add: client_pool_get_client_def max_requests_per_pool_def g_queue_get_length_def)
next
  obtain r pool1 w1 where g: "client_pool_get_client pool on_ready cx w = (r, pool1, w1)"
    by (cases "client_pool_get_client pool on_ready cx w") auto
  from get_client_queue [OF g] g
  show "take (length (q_requests pool))
        (q_requests (fst (snd (client_pool_get_client pool on_ready cx w)))) = q_requests pool"
    by auto
next
  obtain pool1 w1 where g: "client_pool_on_client_released pool cl pc w = (pool1, w1)"
    by (cases "client_pool_on_client_released pool cl pc w") auto
  from on_client_released_queue [OF g] g
  show "length (q_requests (fst (client_pool_on_client_released pool cl pc w)))
        \<le> length (q_requests pool)"
    by simp
next
  show "q_requests (snd (client_pool_get_task_list pool l_tasks name w)) = q_requests pool"
    by (simp add: client_pool_get_task_list_def)
qed

subsection \<open>Runs of the pool with busy and idle clients\<close>

lemma distinct_count_le_1: "distinct xs = (\<forall>x. count_list xs x \<le> 1)"
proof (induction xs)
  case Nil
  show ?case by simp
next
  case (Cons a xs)
  show ?case
  proof
    assume d: "distinct (a # xs)"
    with Cons have c: "\<forall>x. count_list xs x \<le> 1" and n: "a \<notin> set xs" by simp_all
    show "\<forall>x. count_list (a # xs) x \<le> 1"
    proof
      fix x
      from c have "count_list xs x \<le> 1" by blast
      with n show "count_list (a # xs) x \<le> 1" by (cases "a = x") simp_all
    qed
  next
    assume c: "\<forall>x. count_list (a # xs) x \<le> 1"
    then have "count_list (a # xs) a \<le> 1" by blast
    then have n: "a \<notin> set xs" by (simp add: count_list_0_iff)
    have "\<forall>x. count_list xs x \<le> 1"
    proof
      fix x
      from c have "count_list (a # xs) x \<le> 1" by blast
      then show "count_list xs x \<le> 1" by (cases "a = x") simp_all
    qed
    with Cons n show "distinct (a # xs)" by simp
  qed
qed

lemma get_client_scan_Some:
  "get_client_scan l w = Some pc \<Longrightarrow> pc \<in> set l \<and> is_ready pc w"
  by (induction l) (auto simp: is_ready_def split: if_splits)

lemma usage_wf_ready:
  "usage_wf pool \<Longrightarrow> pc \<in> set (l_clients pool) \<Longrightarrow>
   is_ready pc u = (client pc \<notin> set (requests u))"
  by (simp add: usage_wf_def is_ready_def is_idle_def)

lemma usage_get_client:
  assumes wf: "usage_wf pool"
    and g: "client_pool_get_client pool start_request c u = (r, pool1, u1)"
  shows "usage_wf pool1 \<and> l_clients pool1 = l_clients pool \<and> conf pool1 = conf pool
    \<and> ((\<not> r \<and> pool1 = pool \<and> u1 = u
          \<and> max_requests_per_pool pool \<le> length (q_requests pool))
       \<or> (r \<and> pool1 = pool \<and> length (q_requests pool) < max_requests_per_pool pool
          \<and> (\<exists>pc \<in> set (l_clients pool). client pc \<notin> set (requests u)
                \<and> u1 = start_request (client pc) c u))
       \<or> (r \<and> u1 = u \<and> length (q_requests pool) < max_requests_per_pool pool
          \<and> q_requests pool1 = q_requests pool @ [usage_request c]
          \<and> (\<forall>pc \<in> set (l_clients pool). client pc \<in> set (requests u))))"
proof (cases "max_requests_per_pool pool \<le> length (q_requests pool)")
  case True
  with g wf show ?thesis
    by (auto simp: client_pool_get_client_def max_requests_per_pool_def g_queue_get_length_def)
next
  case False
  show ?thesis
  proof (cases "get_client_scan (l_clients pool) u")
    case None
    with get_client_scan_None [of "l_clients pool" u] wf
    have busy: "\<forall>pc \<in> set (l_clients pool). client pc \<in> set (requests u)"
      by (auto simp: usage_wf_ready)
    from None False g
    have "r" "u1 = u" "pool1 = pool\<lparr>q_requests := q_requests pool @ [usage_request c]\<rparr>"
      by (auto simp: client_pool_get_client_def max_requests_per_pool_def
          g_queue_get_length_def g_queue_push_tail_def usage_request_def)
    with wf busy False show ?thesis
      by (auto simp: usage_wf_def usage_request_def max_requests_per_pool_def)
  next
    case (Some pc)
    from get_client_scan_Some [OF Some] wf
    have pc: "pc \<in> set (l_clients pool)" "client pc \<notin> set (requests u)"
      by (auto simp: usage_wf_ready)
    from Some False g
    have "r" "pool1 = pool" "u1 = start_request (client pc) c u"
      by (auto simp: client_pool_get_client_def max_requests_per_pool_def
          g_queue_get_length_def)
    with wf pc False show ?thesis by auto
  qed
qed

lemma usage_released:
  assumes wf: "usage_wf pool"
    and g: "client_pool_on_client_released pool h pc u = (pool1, u1)"
  shows "usage_wf pool1 \<and> l_clients pool1 = l_clients pool \<and> conf pool1 = conf pool
    \<and> ((q_requests pool = [] \<and> pool1 = pool \<and> u1 = u)
       \<or> (\<exists>data rest. q_requests pool = data # rest \<and> q_requests pool1 = rest
             \<and> u1 = start_request h (ctx data) u))"
proof (cases "q_requests pool")
  case Nil
  with g wf show ?thesis by (auto simp: client_pool_on_client_released_def usage_wf_def)
next
  case (Cons data rest)
  with wf have "on_client_ready data = start_request" by (simp add: usage_wf_def)
  with Cons g wf show ?thesis
    by (auto simp: client_pool_on_client_released_def usage_wf_def)
qed

lemma sys_step_distinct:
  assumes wf: "usage_wf (sys_pool s)"
    and d: "distinct (requests (sys_world s))"
    and st: "sys_step s e = Some s1"
  shows "usage_wf (sys_pool s1) \<and> distinct (requests (sys_world s1))"
proof (cases e)
  case (Acquire c)
  obtain r pool1 u1 where
    g: "client_pool_get_client (sys_pool s) start_request c (sys_world s) = (r, pool1, u1)"
    by (cases "client_pool_get_client (sys_pool s) start_request c (sys_world s)") auto
  with st Acquire have s1: "sys_pool s1 = pool1" "sys_world s1 = u1" by auto
  from usage_get_client [OF wf g] d s1 show ?thesis
    by (auto simp: start_request_def)
next
  case (Release i)
  let ?pc = "l_clients (sys_pool s) ! i"
  let ?h = "client ?pc"
  from st Release have en: "i < length (l_clients (sys_pool s))"
    "?h \<in> set (requests (sys_world s))"
    by (auto split: if_splits)
  obtain pool1 u1 where
    g: "client_pool_on_client_released (sys_pool s) ?h ?pc (finish_request ?h (sys_world s))
          = (pool1, u1)"
    by (cases "client_pool_on_client_released (sys_pool s) ?h ?pc
          (finish_request ?h (sys_world s))") auto
  with st Release en have s1: "sys_pool s1 = pool1" "sys_world s1 = u1"
    by (auto simp: Let_def)
  from d have "distinct (requests (finish_request ?h (sys_world s)))"
    "?h \<notin> set (requests (finish_request ?h (sys_world s)))"
    by (simp_all add: finish_request_def)
  with usage_released [OF wf g] s1 show ?thesis
    by (auto simp: start_request_def)
qed

lemma sys_exec_distinct:
  "usage_wf (sys_pool s) \<Longrightarrow> distinct (requests (sys_world s)) \<Longrightarrow>
   sys_exec evs s = Some s1 \<Longrightarrow>
   usage_wf (sys_pool s1) \<and> distinct (requests (sys_world s1))"
proof (induction evs arbitrary: s)
  case Nil
  then show ?case by simp
next
  case (Cons e evs)
  from Cons.prems(3) obtain s2 where st: "sys_step s e = Some s2"
    and ex: "sys_exec evs s2 = Some s1"
    by (auto split: option.splits)
  from sys_step_distinct [OF Cons.prems(1,2) st] Cons.IH [OF _ _ ex]
  show ?case by blast
qed

text \<open>
  C4. Clients are ready exactly when they have no request in flight, every callback
  starts a request on the handle it is given, and a client notifies the pool when its
  request is finished. If no handle carries more than one request to begin with, then
  after any run of acquire calls and release notifications no handle carries more than
  one request: the pool hands no handle to a second caller while the first caller's
  request is in flight.
\<close>

theorem one_request_per_client:
  assumes "usage_wf (sys_pool s)"
    and "\<forall>h. count_list (requests (sys_world s)) h \<le> 1"
    and "sys_exec evs s = Some s1"
  shows "\<forall>h. count_list (requests (sys_world s1)) h \<le> 1"
  using assms sys_exec_distinct [of s evs s1] by (simp add: distinct_count_le_1)


lemma sys_exec_append:
  "sys_exec (es1 @ es2) s = (case sys_exec es1 s of None \<Rightarrow> None | Some s1 \<Rightarrow> sys_exec es2 s1)"
  by (induction es1 arbitrary: s) (auto split: option.splits)

lemma acquire_while_busy:
  assumes wf: "usage_wf (sys_pool s)"
    and busy: "all_busy s"
    and room: "length (q_requests (sys_pool s)) < max_requests_per_pool (sys_pool s)"
  shows "sys_step s (Acquire c) =
     Some (s\<lparr>sys_pool := (sys_pool s)\<lparr>q_requests := q_requests (sys_pool s) @ [usage_request c]\<rparr>,
             sys_returned := sys_returned s @ [True]\<rparr>)"
proof -
  from wf busy have "\<forall>p \<in> set (l_clients (sys_pool s)). \<not> is_ready p (sys_world s)"
    by (simp add: all_busy_def usage_wf_ready)
  then have "get_client_scan (l_clients (sys_pool s)) (sys_world s) = None"
    by (simp add: get_client_scan_None)
  with room show ?thesis
    by (simp add: client_pool_get_client_def max_requests_per_pool_def g_queue_get_length_def
        g_queue_push_tail_def usage_request_def)
qed

lemma acquires_while_busy:
  "usage_wf (sys_pool s) \<Longrightarrow> all_busy s \<Longrightarrow>
   length (q_requests (sys_pool s)) + length cs \<le> max_requests_per_pool (sys_pool s) \<Longrightarrow>
   sys_exec (map Acquire cs) s =
     Some (s\<lparr>sys_pool := (sys_pool s)\<lparr>q_requests := q_requests (sys_pool s) @ map usage_request cs\<rparr>,
             sys_returned := sys_returned s @ replicate (length cs) True\<rparr>)"
proof (induction cs arbitrary: s)
  case Nil
  then show ?case by simp
next
  case (Cons c cs)
  let ?s1 = "s\<lparr>sys_pool := (sys_pool s)\<lparr>q_requests := q_requests (sys_pool s) @ [usage_request c]\<rparr>,
             sys_returned := sys_returned s @ [True]\<rparr>"
  from Cons.prems have st: "sys_step s (Acquire c) = Some ?s1"
    by (intro acquire_while_busy) simp_all
  from Cons.prems have wf1: "usage_wf (sys_pool ?s1)"
    by (simp add: usage_wf_def usage_request_def)
  from Cons.prems have b1: "all_busy ?s1" by (simp add: all_busy_def)
  from Cons.prems have r1: "length (q_requests (sys_pool ?s1)) + length cs
      \<le> max_requests_per_pool (sys_pool ?s1)"
    by (simp add: max_requests_per_pool_def)
  from Cons.IH [OF wf1 b1 r1] st show ?case
    by (simp add: replicate_app_Cons_same)
qed

lemma release_while_waiting:
  assumes wf: "usage_wf (sys_pool s)"
    and busy: "all_busy s"
    and q: "q_requests (sys_pool s) = map usage_request (c # cs)"
    and i: "i < length (l_clients (sys_pool s))"
  shows "\<exists>s1. sys_step s (Release i) = Some s1
      \<and> usage_wf (sys_pool s1) \<and> all_busy s1
      \<and> l_clients (sys_pool s1) = l_clients (sys_pool s)
      \<and> q_requests (sys_pool s1) = map usage_request cs
      \<and> served (sys_world s1) = served (sys_world s) @ [(c, client (l_clients (sys_pool s) ! i))]
      \<and> sys_returned s1 = sys_returned s"
proof -
  let ?pc = "l_clients (sys_pool s) ! i"
  let ?h = "client ?pc"
  from i busy have h: "?h \<in> set (requests (sys_world s))"
    by (simp add: all_busy_def)
  let ?u1 = "start_request ?h c (finish_request ?h (sys_world s))"
  let ?s1 = "\<lparr>sys_pool = (sys_pool s)\<lparr>q_requests := map usage_request cs\<rparr>, sys_world = ?u1,
     sys_returned = sys_returned s\<rparr>"
  from i h q have st: "sys_step s (Release i) = Some ?s1"
    by (simp add: client_pool_on_client_released_def Let_def usage_request_def)
  from wf have wf1: "usage_wf (sys_pool ?s1)"
    by (simp add: usage_wf_def usage_request_def)
  have "x \<in> set (requests ?u1)" if "x \<in> set (requests (sys_world s))" for x
    using that by (cases "x = ?h") (simp_all add: start_request_def finish_request_def)
  with busy have b1: "all_busy ?s1" by (simp add: all_busy_def)
  have sv: "served (sys_world ?s1) = served (sys_world s) @ [(c, ?h)]"
    by (simp add: start_request_def finish_request_def)
  from st wf1 b1 sv show ?thesis by simp
qed

lemma releases_while_waiting:
  "usage_wf (sys_pool s) \<Longrightarrow> all_busy s \<Longrightarrow>
   q_requests (sys_pool s) = map usage_request cs \<Longrightarrow>
   \<forall>i \<in> set is. i < length (l_clients (sys_pool s)) \<Longrightarrow> length is \<le> length cs \<Longrightarrow>
   \<exists>s1. sys_exec (map Release is) s = Some s1
      \<and> q_requests (sys_pool s1) = map usage_request (drop (length is) cs)
      \<and> served (sys_world s1)
           = served (sys_world s)
             @ zip (take (length is) cs) (map (\<lambda>i. client (l_clients (sys_pool s) ! i)) is)
      \<and> sys_returned s1 = sys_returned s"
proof (induction "is" arbitrary: s cs)
  case Nil
  then show ?case by simp
next
  case (Cons i "is")
  from Cons.prems(5) obtain c cs' where cs: "cs = c # cs'" by (cases cs) auto
  from Cons.prems cs
  obtain s1 where st: "sys_step s (Release i) = Some s1"
    and wf1: "usage_wf (sys_pool s1)" and b1: "all_busy s1"
    and l1: "l_clients (sys_pool s1) = l_clients (sys_pool s)"
    and q1: "q_requests (sys_pool s1) = map usage_request cs'"
    and sv1: "served (sys_world s1) = served (sys_world s) @ [(c, client (l_clients (sys_pool s) ! i))]"
    and r1: "sys_returned s1 = sys_returned s"
    using release_while_waiting [of s c cs' i] by auto
  from Cons.prems cs l1 have i1: "\<forall>i \<in> set is. i < length (l_clients (sys_pool s1))"
    and len1: "length is \<le> length cs'" by simp_all
  from Cons.IH [OF wf1 b1 q1 i1 len1] st cs sv1 r1 l1 show ?case by auto
qed

text \<open>
  C3. All clients are busy and the queue is empty. The callers \<open>cs\<close> (no more than the
  bound admits) call acquire one after the other: every call returns TRUE, nobody is
  served, and the queue holds \<open>cs\<close> in call order. Then clients release, in any order
  \<open>is\<close> of client positions and no more often than callers wait: the k-th release
  runs the callback of the k-th caller, on the handle of the client that released, and
  the callers not yet served stay queued in order.
\<close>

theorem release_serves_fifo:
  assumes wf: "usage_wf (sys_pool s)"
    and q: "q_requests (sys_pool s) = []"
    and busy: "\<forall>pc \<in> set (l_clients (sys_pool s)). client pc \<in> set (requests (sys_world s))"
    and room: "length cs \<le> max_requests_per_pool (sys_pool s)"
    and valid: "\<forall>i \<in> set is. i < length (l_clients (sys_pool s))"
    and len: "length is \<le> length cs"
  shows "\<exists>s1 s2. sys_exec (map Acquire cs) s = Some s1
      \<and> sys_returned s1 = sys_returned s @ replicate (length cs) True
      \<and> served (sys_world s1) = served (sys_world s)
      \<and> q_requests (sys_pool s1) = map usage_request cs
      \<and> sys_exec (map Release is) s1 = Some s2
      \<and> served (sys_world s2)
           = served (sys_world s)
             @ zip (take (length is) cs) (map (\<lambda>i. client (l_clients (sys_pool s) ! i)) is)
      \<and> q_requests (sys_pool s2) = map usage_request (drop (length is) cs)"
proof -
  let ?s1 = "s\<lparr>sys_pool := (sys_pool s)\<lparr>q_requests := q_requests (sys_pool s) @ map usage_request cs\<rparr>,
             sys_returned := sys_returned s @ replicate (length cs) True\<rparr>"
  from busy have b: "all_busy s" by (simp add: all_busy_def)
  from q room have "length (q_requests (sys_pool s)) + length cs \<le> max_requests_per_pool (sys_pool s)"
    by simp
  from acquires_while_busy [OF wf b this]
  have a: "sys_exec (map Acquire cs) s = Some ?s1" .
  from wf have wf1: "usage_wf (sys_pool ?s1)"
    by (auto simp: usage_wf_def usage_request_def)
  from b have b1: "all_busy ?s1" by (simp add: all_busy_def)
  from q have q1: "q_requests (sys_pool ?s1) = map usage_request cs" by simp
  from valid have v1: "\<forall>i \<in> set is. i < length (l_clients (sys_pool ?s1))" by simp
  from releases_while_waiting [OF wf1 b1 q1 v1 len]
  obtain s2 where "sys_exec (map Release is) ?s1 = Some s2"
    "q_requests (sys_pool s2) = map usage_request (drop (length is) cs)"
    "served (sys_world s2)
           = served (sys_world s)
             @ zip (take (length is) cs) (map (\<lambda>i. client (l_clients (sys_pool s) ! i)) is)"
    by auto
  with a q1 show ?thesis by simp
qed

subsection \<open>Concrete runs\<close>

lemma usage_wf_usage_pool: "usage_wf (usage_pool m hs cs)"
  by (auto simp: usage_wf_def usage_pool_def usage_client_def usage_request_def)

lemmas run_defs = usage_system_def client_pool_get_client_def
  client_pool_on_client_released_def g_queue_get_length_def g_queue_push_tail_def Let_def

text \<open>
  Two clients, bound 1: three callers, the third waits and is served by the release of
  the first client; the second release finds the queue empty.
\<close>

theorem one_request_per_client_witness:
  "sys_exec [Acquire 1, Acquire 2, Acquire 3, Release 0, Release 1] (usage_system 1 [10, 20])
     = Some \<lparr>sys_pool = usage_pool 1 [10, 20] [],
             sys_world = usage0\<lparr>requests := [10], served := [(1, 10), (2, 20), (3, 10)]\<rparr>,
             sys_returned = [True, True, True]\<rparr>
   \<and> count_list [10] (10 :: nat) \<le> 1 \<and> count_list [10] (20 :: nat) \<le> 1"
proof -
  let ?s = "usage_system 1 [10, 20]"
  let ?evs = "[Acquire 1, Acquire 2, Acquire 3, Release 0, Release 1]"
  let ?s1 = "\<lparr>sys_pool = usage_pool 1 [10, 20] [],
             sys_world = usage0\<lparr>requests := [10], served := [(1, 10), (2, 20), (3, 10)]\<rparr>,
             sys_returned = [True, True, True]\<rparr>"
  have a: "usage_wf (sys_pool ?s)" by (simp add: usage_system_def usage_wf_usage_pool)
  have b: "\<forall>h. count_list (requests (sys_world ?s)) h \<le> 1"
    by (simp add: usage_system_def usage_defs)
  have c: "sys_exec ?evs ?s = Some ?s1" by (simp add: run_defs usage_defs)
  from one_request_per_client [OF a b c]
  have "\<forall>h. count_list (requests (sys_world ?s1)) h \<le> 1" .
  then have "count_list [10] (10 :: nat) \<le> 1 \<and> count_list [10] (20 :: nat) \<le> 1" by simp
  with c show ?thesis by simp
qed

text \<open>
  Both clients busy, callers 1, 2, 3 queue up; client 20 releases first and serves
  caller 1, then client 10 serves caller 2; caller 3 still waits.
\<close>

theorem release_serves_fifo_witness:
  "\<exists>s1 s2. sys_exec (map Acquire [1, 2, 3])
        ((usage_system 3 [10, 20])\<lparr>sys_world := usage0\<lparr>requests := [20, 10]\<rparr>\<rparr>) = Some s1
      \<and> sys_returned s1 = [True, True, True]
      \<and> served (sys_world s1) = []
      \<and> q_requests (sys_pool s1) = map usage_request [1, 2, 3]
      \<and> sys_exec (map Release [1, 0]) s1 = Some s2
      \<and> served (sys_world s2) = [(1, 20), (2, 10)]
      \<and> q_requests (sys_pool s2) = map usage_request [3]"
proof -
  let ?s = "(usage_system 3 [10, 20])\<lparr>sys_world := usage0\<lparr>requests := [20, 10]\<rparr>\<rparr>"
  have a: "usage_wf (sys_pool ?s)" by (simp add: usage_system_def usage_wf_usage_pool)
  have b: "q_requests (sys_pool ?s) = []" by (simp add: usage_system_def usage_defs)
  have c: "\<forall>pc \<in> set (l_clients (sys_pool ?s)). client pc \<in> set (requests (sys_world ?s))"
    by (simp add: usage_system_def usage_defs)
  have d: "length [1, 2, 3 :: nat] \<le> max_requests_per_pool (sys_pool ?s)"
    by (simp add: usage_system_def usage_defs)
  have e: "\<forall>i \<in> set [1, 0 :: nat]. i < length (l_clients (sys_pool ?s))"
    by (simp add: usage_system_def usage_defs)
  have f: "length [1, 0 :: nat] \<le> length [1, 2, 3 :: nat]" by simp
  from release_serves_fifo [OF a b c d e f] show ?thesis
    by (simp add: usage_system_def usage_defs)
qed

text \<open>
  A pool of two clients with bound 1, as created: two callers served, the third
  queued, the fourth rejected.
\<close>

theorem wait_queue_bounded_witness:
  "client_pool_create (usage_app 1) 2 new_client mark_destroyed wire_release is_idle
      describe_client usage0
     = (Some (usage_pool 1 [1, 2] []), usage0\<lparr>wired := [1, 2], created := 2\<rparr>)
   \<and> length (q_requests (fst (pool_calls
        (usage_pool 1 [1, 2] [], usage0\<lparr>wired := [1, 2], created := 2\<rparr>)
        [Get_client start_request 7, Get_client start_request 8, Get_client start_request 9,
         Get_client start_request 11]))) \<le> 1
   \<and> pool_calls (usage_pool 1 [1, 2] [], usage0\<lparr>wired := [1, 2], created := 2\<rparr>)
        [Get_client start_request 7, Get_client start_request 8, Get_client start_request 9,
         Get_client start_request 11]
     = (usage_pool 1 [1, 2] [9],
        usage0\<lparr>requests := [2, 1], served := [(7, 1), (8, 2)], wired := [1, 2], created := 2\<rparr>)"
proof -
  let ?u = "usage0\<lparr>wired := [1, 2], created := 2\<rparr>"
  let ?cs = "[Get_client start_request 7, Get_client start_request 8, Get_client start_request 9,
         Get_client start_request 11]"
  have c: "client_pool_create (usage_app 1) 2 new_client mark_destroyed wire_release is_idle
      describe_client usage0 = (Some (usage_pool 1 [1, 2] []), ?u)"
  proof -
    have u: "[1..<Suc 2] = [1, 2::nat]" by (simp add: upt_rec eval_nat_numeral)
    from client_pool_create_usage [of 1 2] show ?thesis unfolding u by simp
  qed
  from wait_queue_bounded [where ap = "usage_app 1" and n = 2 and cr = new_client
      and de = mark_destroyed and se = wire_release and ch = is_idle and gi = describe_client
      and ?w0.0 = usage0 and ?pool0.0 = "usage_pool 1 [1, 2] []" and w = ?u and cs = ?cs
      and pool = "usage_pool 1 [1, 2] []"] c
  have "length (q_requests (fst (pool_calls (usage_pool 1 [1, 2] [], ?u) ?cs)))
      \<le> conf_get_uint (application_get_conf (usage_app 1)) ''pool.max_requests_per_pool''"
    by blast
  then have b: "length (q_requests (fst (pool_calls (usage_pool 1 [1, 2] [], ?u) ?cs))) \<le> 1"
    by (simp add: usage_defs)
  have e: "pool_calls (usage_pool 1 [1, 2] [], ?u) ?cs
     = (usage_pool 1 [1, 2] [9],
        usage0\<lparr>requests := [2, 1], served := [(7, 1), (8, 2)], wired := [1, 2], created := 2\<rparr>)"
    by (simp add: pool_calls_def run_defs usage_defs)
  from c b e show ?thesis by blast
qed

subsection \<open>Acquire with an idle client\<close>

lemma some_client_idle:
  assumes "fewer_busy s c"
  shows "\<exists>pc \<in> set (l_clients (sys_pool s)). client pc \<notin> set (requests (sys_world s))"
proof (rule ccontr)
  assume "\<not> ?thesis"
  then have "filter (\<lambda>pc. client pc \<in> set (requests (sys_world s))) (l_clients (sys_pool s))
      = l_clients (sys_pool s)"
    by simp
  with assms show False by (simp add: fewer_busy_def)
qed

lemma acquire_with_idle_client:
  assumes wf: "usage_wf (sys_pool s)"
    and q: "q_requests (sys_pool s) = []"
    and m: "0 < max_requests_per_pool (sys_pool s)"
    and f: "fewer_busy s c"
  shows "\<exists>pc \<in> set (l_clients (sys_pool s)).
     client_pool_get_client (sys_pool s) start_request c (sys_world s)
       = (True, sys_pool s, start_request (client pc) c (sys_world s))"
proof -
  from some_client_idle [OF f] wf
  have "\<not> (\<forall>p \<in> set (l_clients (sys_pool s)). \<not> is_ready p (sys_world s))"
    by (auto simp: usage_wf_ready)
  then obtain pc where sc: "get_client_scan (l_clients (sys_pool s)) (sys_world s) = Some pc"
    using get_client_scan_None [of "l_clients (sys_pool s)" "sys_world s"] by auto
  from get_client_scan_Some [OF sc] have "pc \<in> set (l_clients (sys_pool s))" by simp
  moreover from sc q m
  have "client_pool_get_client (sys_pool s) start_request c (sys_world s)
       = (True, sys_pool s, start_request (client pc) c (sys_world s))"
    by (simp add: client_pool_get_client_def max_requests_per_pool_def g_queue_get_length_def)
  ultimately show ?thesis by blast
qed

lemma served_when_idle:
  "usage_wf (sys_pool s) \<Longrightarrow> q_requests (sys_pool s) = [] \<Longrightarrow>
   0 < max_requests_per_pool (sys_pool s) \<Longrightarrow>
   at_every_acquire fewer_busy evs s \<Longrightarrow> at_every_acquire served_sync evs s"
proof (induction evs arbitrary: s)
  case Nil
  show ?case by simp
next
  case (Cons e evs)
  show ?case
  proof (cases e)
    case (Acquire c)
    with Cons.prems(4) have f: "fewer_busy s c" by simp
    from acquire_with_idle_client [OF Cons.prems(1-3) f]
    obtain pc where pc: "pc \<in> set (l_clients (sys_pool s))"
      and g: "client_pool_get_client (sys_pool s) start_request c (sys_world s)
       = (True, sys_pool s, start_request (client pc) c (sys_world s))"
      by blast
    let ?s1 = "\<lparr>sys_pool = sys_pool s, sys_world = start_request (client pc) c (sys_world s),
       sys_returned = sys_returned s @ [True]\<rparr>"
    from g have st: "sys_step s (Acquire c) = Some ?s1" by simp
    from g pc have sv: "served_sync s c" by (auto simp: served_sync_def)
    from Cons.prems(4) Acquire st have "at_every_acquire fewer_busy evs ?s1" by simp
    with Cons.IH [of ?s1] Cons.prems(1-3) have "at_every_acquire served_sync evs ?s1" by simp
    with sv st Acquire show ?thesis by simp
  next
    case (Release i)
    show ?thesis
    proof (cases "sys_step s (Release i)")
      case None
      with Release show ?thesis by simp
    next
      case (Some s1)
      let ?pc = "l_clients (sys_pool s) ! i"
      from Some Cons.prems(2) have p1: "sys_pool s1 = sys_pool s"
        by (auto simp: client_pool_on_client_released_def Let_def split: if_splits)
      from Cons.prems(4) Release Some have "at_every_acquire fewer_busy evs s1" by simp
      with Cons.IH [of s1] Cons.prems(1-3) p1 have "at_every_acquire served_sync evs s1" by simp
      with Some Release show ?thesis by simp
    qed
  qed
qed

text \<open>
  C6, amended. The pool has a queue bound greater than 0 and an empty wait queue, as
  after creation. In every run of acquire calls and release notifications in which,
  whenever acquire is called, fewer clients than the pool has are busy, every acquire
  call is served synchronously: it returns TRUE, its callback has run on the handle of
  a client of the pool, and nothing is queued.
\<close>

theorem idle_client_serves_synchronously:
  assumes "usage_wf (sys_pool s)"
    and "q_requests (sys_pool s) = []"
    and "0 < max_requests_per_pool (sys_pool s)"
    and "at_every_acquire fewer_busy evs s"
  shows "at_every_acquire served_sync evs s"
  using assms by (rule served_when_idle)

theorem idle_client_serves_synchronously_witness:
  "at_every_acquire fewer_busy [Acquire 7, Release 0, Acquire 8, Acquire 9] (usage_system 1 [1, 2])
   \<and> at_every_acquire served_sync [Acquire 7, Release 0, Acquire 8, Acquire 9] (usage_system 1 [1, 2])"
proof -
  let ?s = "usage_system 1 [1, 2]"
  let ?evs = "[Acquire 7, Release 0, Acquire 8, Acquire 9]"
  have a: "usage_wf (sys_pool ?s)" by (simp add: usage_system_def usage_wf_usage_pool)
  have b: "q_requests (sys_pool ?s) = []" by (simp add: usage_system_def usage_defs)
  have c: "0 < max_requests_per_pool (sys_pool ?s)" by (simp add: usage_system_def usage_defs)
  have d: "at_every_acquire fewer_busy ?evs ?s"
    by (simp add: fewer_busy_def run_defs usage_defs)
  from d idle_client_serves_synchronously [OF a b c d] show ?thesis by simp
qed

text \<open>
  C6 as stated fails when the bound is 0: the pool created with one client and
  \<open>pool.max_requests_per_pool = 0\<close> has its client idle, yet the admission check comes
  first and acquire returns FALSE without running the callback.
\<close>

theorem full_queue_rejects_despite_idle_client:
  "client_pool_create (usage_app 0) 1 new_client mark_destroyed wire_release is_idle
      describe_client usage0
     = (Some (sys_pool (usage_system 0 [1])), usage0\<lparr>wired := [1], created := 1\<rparr>)
   \<and> at_every_acquire fewer_busy [Acquire 7] (usage_system 0 [1])
   \<and> \<not> at_every_acquire served_sync [Acquire 7] (usage_system 0 [1])
   \<and> client_pool_get_client (sys_pool (usage_system 0 [1])) start_request 7
        (sys_world (usage_system 0 [1]))
     = (False, sys_pool (usage_system 0 [1]), sys_world (usage_system 0 [1]))"
proof (intro conjI)
  show "client_pool_create (usage_app 0) 1 new_client mark_destroyed wire_release is_idle
      describe_client usage0
     = (Some (sys_pool (usage_system 0 [1])), usage0\<lparr>wired := [1], created := 1\<rparr>)"
    using client_pool_create_usage [of 0 1] by (simp add: usage_system_def)
  show "at_every_acquire fewer_busy [Acquire 7] (usage_system 0 [1])"
    by (simp add: fewer_busy_def run_defs usage_defs)
  show "\<not> at_every_acquire served_sync [Acquire 7] (usage_system 0 [1])"
    by (simp add: served_sync_def run_defs usage_defs)
  show "client_pool_get_client (sys_pool (usage_system 0 [1])) start_request 7
        (sys_world (usage_system 0 [1]))
     = (False, sys_pool (usage_system 0 [1]), sys_world (usage_system 0 [1]))"
    by (simp add: run_defs usage_defs)
qed

subsection \<open>A pool without clients\<close>

lemma create_no_clients:
  "client_pool_create ap 0 cr de se ch gi w =
     (Some \<lparr>app = ap, conf = application_get_conf ap, evbase = application_get_evbase ap,
            dns_base = application_get_dnsbase ap, l_clients = [], q_requests = []\<rparr>, w)"
  by (simp add: client_pool_create_def Let_def g_queue_new_def
      create_loop.simps [of _ _ _ _ _ _ 0 0])

lemma get_client_no_clients:
  "l_clients pool = [] \<Longrightarrow>
   client_pool_get_client pool on_ready cx w =
     (if length (q_requests pool) < max_requests_per_pool pool
      then (True, pool\<lparr>q_requests := q_requests pool @ [\<lparr>on_client_ready = on_ready, ctx = cx\<rparr>]\<rparr>, w)
      else (False, pool, w))"
  by (simp add: client_pool_get_client_def max_requests_per_pool_def g_queue_get_length_def
      g_queue_push_tail_def)

lemma returns_shift:
  assumes "length q1 = (if length q < m then Suc (length q) else length q)"
  shows "(length q < m) # map (\<lambda>k. length q1 + k < m) [0..<n]
     = map (\<lambda>k. length q + k < m) [0..<Suc n]"
proof -
  have "map (\<lambda>k. length q + k < m) [0..<Suc n]
      = (length q < m) # map (\<lambda>k. length q + Suc k < m) [0..<n]"
    by (simp add: upt_conv_Cons map_Suc_upt [symmetric] del: upt_Suc)
  moreover have "map (\<lambda>k. length q1 + k < m) [0..<n] = map (\<lambda>k. length q + Suc k < m) [0..<n]"
    using assms by (intro map_cong) (auto split: if_splits)
  ultimately show ?thesis by simp
qed

lemma run_no_clients:
  "l_clients (sys_pool s) = [] \<Longrightarrow> sys_exec evs s = Some s1 \<Longrightarrow>
   sys_world s1 = sys_world s \<and> l_clients (sys_pool s1) = []
   \<and> (\<forall>e \<in> set evs. \<exists>c. e = Acquire c)
   \<and> sys_returned s1 = sys_returned s
        @ map (\<lambda>k. length (q_requests (sys_pool s)) + k < max_requests_per_pool (sys_pool s))
            [0..<length evs]"
proof (induction evs arbitrary: s)
  case Nil
  then show ?case by simp
next
  case (Cons e evs)
  from Cons.prems(2) obtain s2 where st: "sys_step s e = Some s2"
    and ex: "sys_exec evs s2 = Some s1"
    by (auto split: option.splits)
  from st Cons.prems(1) obtain c where e: "e = Acquire c" by (cases e) auto
  let ?q = "q_requests (sys_pool s)"
  let ?m = "max_requests_per_pool (sys_pool s)"
  from st e get_client_no_clients [OF Cons.prems(1), of start_request c "sys_world s"]
  have w2: "sys_world s2 = sys_world s" and l2: "l_clients (sys_pool s2) = []"
    and r2: "sys_returned s2 = sys_returned s @ [length ?q < ?m]"
    and m2: "max_requests_per_pool (sys_pool s2) = ?m"
    and q2: "length (q_requests (sys_pool s2)) = (if length ?q < ?m then Suc (length ?q) else length ?q)"
    using Cons.prems(1) by (auto simp: max_requests_per_pool_def split: if_splits)
  from Cons.IH [OF l2 ex] w2 r2 m2 e returns_shift [OF q2, of "length evs"]
  show ?case by (simp del: upt_Suc)
qed

text \<open>
  C10. Created with \<open>client_count = 0\<close>, the pool has no client and an empty queue, and
  creation calls nothing (no release callback is registered). On a pool without
  clients \<open>client_pool_get_client\<close> never runs the callback: below the bound it queues
  the request and returns TRUE, at the bound (always, when the bound is 0) it returns
  FALSE; and \<open>client_pool_destroy\<close> calls nothing. In a run of such a pool no release
  notification can occur, every event is an acquire call, the k-th call returns TRUE
  exactly while the queue is below the bound, and the external state at the end is the
  one at the start: no queued callback has run.
\<close>

theorem no_clients_no_callback:
  "client_pool_create ap 0 cr de se ch gi w =
     (Some \<lparr>app = ap, conf = application_get_conf ap, evbase = application_get_evbase ap,
            dns_base = application_get_dnsbase ap, l_clients = [], q_requests = []\<rparr>, w)
   \<and> (l_clients pool = [] \<longrightarrow>
        client_pool_get_client pool on_ready cx w =
          (if length (q_requests pool) < max_requests_per_pool pool
           then (True, pool\<lparr>q_requests := q_requests pool
                   @ [\<lparr>on_client_ready = on_ready, ctx = cx\<rparr>]\<rparr>, w)
           else (False, pool, w))
        \<and> client_pool_destroy pool w = w)
   \<and> (l_clients (sys_pool s) = [] \<and> sys_exec evs s = Some s1 \<longrightarrow>
        sys_world s1 = sys_world s \<and> l_clients (sys_pool s1) = []
        \<and> (\<forall>e \<in> set evs. \<exists>c. e = Acquire c)
        \<and> sys_returned s1 = sys_returned s
             @ map (\<lambda>k. length (q_requests (sys_pool s)) + k < max_requests_per_pool (sys_pool s))
                 [0..<length evs])"
proof (intro conjI impI)
  show "client_pool_create ap 0 cr de se ch gi w =
     (Some \<lparr>app = ap, conf = application_get_conf ap, evbase = application_get_evbase ap,
            dns_base = application_get_dnsbase ap, l_clients = [], q_requests = []\<rparr>, w)"
    by (rule create_no_clients)
next
  assume "l_clients pool = []"
  then show "client_pool_get_client pool on_ready cx w =
          (if length (q_requests pool) < max_requests_per_pool pool
           then (True, pool\<lparr>q_requests := q_requests pool
                   @ [\<lparr>on_client_ready = on_ready, ctx = cx\<rparr>]\<rparr>, w)
           else (False, pool, w))"
    by (rule get_client_no_clients)
next
  assume "l_clients pool = []"
  then show "client_pool_destroy pool w = w" by (simp add: client_pool_destroy_def)
next
  assume a: "l_clients (sys_pool s) = [] \<and> sys_exec evs s = Some s1"
  then have l: "l_clients (sys_pool s) = []" and ex: "sys_exec evs s = Some s1" by simp_all
  from run_no_clients [OF l ex]
  show "sys_world s1 = sys_world s" and "l_clients (sys_pool s1) = []"
    and "\<forall>e \<in> set evs. \<exists>c. e = Acquire c"
    and "sys_returned s1 = sys_returned s
             @ map (\<lambda>k. length (q_requests (sys_pool s)) + k < max_requests_per_pool (sys_pool s))
                 [0..<length evs]"
    by simp_all
qed

text \<open>
  No client, bound 2: two callers queued, the third rejected, nobody served; with
  bound 0 the first caller is rejected; destroying the pool serves nobody either.
\<close>

theorem no_clients_no_callback_witness:
  "sys_exec [Acquire 7, Acquire 8, Acquire 9] (usage_system 2 [])
     = Some \<lparr>sys_pool = usage_pool 2 [] [7, 8], sys_world = usage0,
             sys_returned = [True, True, False]\<rparr>
   \<and> client_pool_get_client (usage_pool 0 [] []) start_request 7 usage0
     = (False, usage_pool 0 [] [], usage0)
   \<and> client_pool_destroy (usage_pool 2 [] [7, 8]) usage0 = usage0"
proof -
  let ?s = "usage_system 2 []"
  let ?s1 = "\<lparr>sys_pool = usage_pool 2 [] [7, 8], sys_world = usage0,
             sys_returned = [True, True, False]\<rparr>"
  have ex: "sys_exec [Acquire 7, Acquire 8, Acquire 9] ?s = Some ?s1"
    by (simp add: run_defs usage_defs)
  have l: "l_clients (sys_pool ?s) = []" by (simp add: usage_system_def usage_defs)
  have l0: "l_clients (usage_pool 0 [] []) = []" by (simp add: usage_defs)
  have l2: "l_clients (usage_pool 2 [] [7, 8]) = []" by (simp add: usage_defs)
  from no_clients_no_callback [where pool = "usage_pool 0 [] []" and w = usage0
      and on_ready = start_request and cx = 7 and s = ?s and ?s1.0 = ?s1
      and evs = "[Acquire 7, Acquire 8, Acquire 9]"] l0
  have a: "client_pool_get_client (usage_pool 0 [] []) start_request 7 usage0
     = (False, usage_pool 0 [] [], usage0)"
    by (simp add: usage_defs)
  from no_clients_no_callback [where pool = "usage_pool 2 [] [7, 8]" and w = usage0
      and s = ?s and ?s1.0 = ?s1 and evs = "[Acquire 7, Acquire 8, Acquire 9]"] l2
  have b: "client_pool_destroy (usage_pool 2 [] [7, 8]) usage0 = usage0" by blast
  from ex a b show ?thesis by simp
qed

end
